theory Spec2Isabelle
  imports Main "HOL-Library.Sublist" "HOL-Library.Multiset"
begin

section \<open>Python strings\<close>

text \<open>
  A Python \<open>str\<close> is modelled as a \<open>string\<close> (a list of \<open>char\<close>), one \<open>char\<close> per
  code point, so the model covers the texts whose code points lie below 256.
  The helpers below are the \<open>str\<close> methods the two scripts call.
\<close>

abbreviation LF :: char where "LF \<equiv> CHR 0x0A"
abbreviation CR :: char where "CR \<equiv> CHR 0x0D"
abbreviation DQUOTE :: char where "DQUOTE \<equiv> CHR 0x22"
abbreviation BACKSLASH :: char where "BACKSLASH \<equiv> CHR 0x5C"

text \<open>\<open>str.isspace\<close> on one character: the code points below 256 that Python counts as
  whitespace (the ones \<open>strip\<close> and \<open>rstrip\<close> remove).\<close>

definition is_space :: "char \<Rightarrow> bool" where
  "is_space c = (c \<in> set [CHR 0x09, CHR 0x0A, CHR 0x0B, CHR 0x0C, CHR 0x0D,
                           CHR 0x1C, CHR 0x1D, CHR 0x1E, CHR 0x1F, CHR 0x20,
                           CHR 0x85, CHR 0xA0])"

definition lstrip :: "string \<Rightarrow> string" where
  "lstrip s = dropWhile is_space s"

definition rstrip :: "string \<Rightarrow> string" where
  "rstrip s = rev (dropWhile is_space (rev s))"

definition strip :: "string \<Rightarrow> string" where
  "strip s = rstrip (lstrip s)"

text \<open>\<open>s.startswith(p)\<close>.\<close>

fun startswith :: "string \<Rightarrow> string \<Rightarrow> bool" where
  "startswith s [] = True"
| "startswith [] (p # ps) = False"
| "startswith (c # cs) (p # ps) = (c = p \<and> startswith cs ps)"

text \<open>\<open>sub in s\<close>: \<open>sub\<close> occurs in \<open>s\<close> as a contiguous run, at any position.\<close>

fun str_in :: "string \<Rightarrow> string \<Rightarrow> bool" where
  "str_in sub [] = (sub = [])"
| "str_in sub (c # cs) = (startswith (c # cs) sub \<or> str_in sub cs)"

text \<open>\<open>s.split(sep)\<close> for a one-character separator: every occurrence splits, and the
  empty string gives one empty field.\<close>

fun split_on :: "char \<Rightarrow> string \<Rightarrow> string list" where
  "split_on sep [] = [[]]"
| "split_on sep (c # cs) =
     (if c = sep then [] # split_on sep cs
      else (case split_on sep cs of [] \<Rightarrow> [[c]] | w # ws \<Rightarrow> (c # w) # ws))"

text \<open>\<open>s.rsplit(sep, 1)[0]\<close> when \<open>sep\<close> occurs in \<open>s\<close>: the text before the last
  separator.\<close>

definition before_last :: "char \<Rightarrow> string \<Rightarrow> string" where
  "before_last sep s = rev (tl (dropWhile (\<lambda>c. c \<noteq> sep) (rev s)))"

text \<open>Reading a text file: universal newlines turn \<open>\r\n\<close> and a lone \<open>\r\<close> into
  \<open>\n\<close>; \<open>readlines\<close> then cuts after every \<open>\n\<close> and keeps it on the line.\<close>

fun translate_newlines :: "string \<Rightarrow> string" where
  "translate_newlines [] = []"
| "translate_newlines [c] = (if c = CR then [LF] else [c])"
| "translate_newlines (c # d # ds) =
     (if c = CR \<and> d = LF then LF # translate_newlines ds
      else if c = CR then LF # translate_newlines (d # ds)
      else c # translate_newlines (d # ds))"

fun split_keepends :: "string \<Rightarrow> string list" where
  "split_keepends [] = []"
| "split_keepends (c # cs) =
     (if c = LF then [c] # split_keepends cs
      else (case split_keepends cs of [] \<Rightarrow> [[c]] | l # ls \<Rightarrow> (c # l) # ls))"

definition readlines :: "string \<Rightarrow> string list" where
  "readlines content = split_keepends (translate_newlines content)"

text \<open>What \<open>f.write(item + '\n')\<close> for each item leaves in the file.\<close>

definition write_lines :: "string list \<Rightarrow> string" where
  "write_lines ls = concat (map (\<lambda>l. l @ [LF]) ls)"

section \<open>The sorter: \<open>url_sorter.py\<close>\<close>

subsection \<open>Arguments\<close>

text \<open>\<open>[k.strip() for k in s.split(',') if k.strip()]\<close>.\<close>

definition csv_items :: "string \<Rightarrow> string list" where
  "csv_items s = filter (\<lambda>k. k \<noteq> []) (map strip (split_on (CHR '','') s))"

text \<open>\<open>target_channels\<close>: \<open>None\<close> when the argument is absent or empty.\<close>

definition target_channels_of :: "string option \<Rightarrow> string list option" where
  "target_channels_of target_channels_str =
     (case target_channels_str of
        None \<Rightarrow> None
      | Some s \<Rightarrow> if s = [] then None else Some (csv_items s))"

text \<open>Truth value of \<open>target_channels\<close> in a condition: a list that is there and not empty.\<close>

fun truthy_list :: "'a list option \<Rightarrow> bool" where
  "truthy_list None = False"
| "truthy_list (Some xs) = (xs \<noteq> [])"

subsection \<open>Parsing\<close>

text \<open>A channel record \<open>{"inf": ..., "urls": ...}\<close>.\<close>

record channel =
  ch_inf :: string
  ch_urls :: "string list"

text \<open>The header test on \<open>lines[0]\<close> and the start index of the channel loop.\<close>

definition has_header :: "string list \<Rightarrow> bool" where
  "has_header lines = (case lines of [] \<Rightarrow> False | l0 # _ \<Rightarrow> str_in ''#EXTM3U'' l0)"

definition processed_content :: "string list \<Rightarrow> string list" where
  "processed_content lines = (if has_header lines then [strip (hd lines)] else [])"

definition start_index :: "string list \<Rightarrow> nat" where
  "start_index lines = (if has_header lines then 1 else 0)"

text \<open>The state of the channel loop: the records flushed so far, the open info line
  (\<open>None\<close> before the first one) and the lines collected under it.\<close>

record parse_state =
  channels_data :: "channel list"
  current_inf :: "string option"
  current_urls :: "string list"

definition init_state :: parse_state where
  "init_state = \<lparr>channels_data = [], current_inf = None, current_urls = []\<rparr>"

text \<open>\<open>if current_inf: channels_data.append(...)\<close>: an open info line that is not the
  empty string is flushed with its lines.\<close>

definition flush :: "parse_state \<Rightarrow> channel list" where
  "flush st =
     (case current_inf st of
        None \<Rightarrow> channels_data st
      | Some i \<Rightarrow> if i \<noteq> [] then channels_data st @ [\<lparr>ch_inf = i, ch_urls = current_urls st\<rparr>]
                 else channels_data st)"

text \<open>One turn of the loop over \<open>lines[start_index:]\<close>.\<close>

definition parse_step :: "parse_state \<Rightarrow> string \<Rightarrow> parse_state" where
  "parse_step st raw =
     (let line = strip raw in
      if line = [] then st
      else if startswith line ''#EXTINF'' then
        \<lparr>channels_data = flush st, current_inf = Some line, current_urls = []\<rparr>
      else if \<not> startswith line ''#'' then
        st\<lparr>current_urls := current_urls st @ [line]\<rparr>
      else
        st\<lparr>current_urls := current_urls st @ [line]\<rparr>)"

definition parse_channels :: "string list \<Rightarrow> channel list" where
  "parse_channels body = flush (foldl parse_step init_state body)"

subsection \<open>Scores and sorting\<close>

text \<open>The \<open>for index, kw in enumerate(keywords)\<close> loop of \<open>get_sort_score\<close>, entered at
  \<open>index\<close> with the keywords still to try.\<close>

fun score_loop :: "string list \<Rightarrow> bool \<Rightarrow> string \<Rightarrow> nat \<Rightarrow> string list \<Rightarrow> int" where
  "score_loop keywords reverse_mode item index [] = 0"
| "score_loop keywords reverse_mode item index (kw # rest) =
     (if str_in kw item then
        (if reverse_mode then int index + 1 else int index - int (length keywords))
      else score_loop keywords reverse_mode item (index + 1) rest)"

definition get_sort_score :: "string list \<Rightarrow> bool \<Rightarrow> string \<Rightarrow> int" where
  "get_sort_score keywords reverse_mode item =
     (if \<not> str_in ''://'' item then 9999
      else score_loop keywords reverse_mode item 0 keywords)"

text \<open>\<open>sorted(xs, key=f)\<close>: ascending in the key and stable. The result of a stable sort
  is determined by the keys, so insertion from the right end computes it.\<close>

fun insert_by :: "('a \<Rightarrow> int) \<Rightarrow> 'a \<Rightarrow> 'a list \<Rightarrow> 'a list" where
  "insert_by key x [] = [x]"
| "insert_by key x (y # ys) =
     (if key x \<le> key y then x # y # ys else y # insert_by key x ys)"

fun sorted_by :: "('a \<Rightarrow> int) \<Rightarrow> 'a list \<Rightarrow> 'a list" where
  "sorted_by key [] = []"
| "sorted_by key (x # xs) = insert_by key x (sorted_by key xs)"

subsection \<open>Regular-expression substitution\<close>

text \<open>
  \<open>re.sub(pattern, repl, string)\<close> with a string \<open>repl\<close> reads \<open>repl\<close> as a template:
  a backslash starts an escape (\<open>\n\<close> is a newline, \<open>\\\<close> one backslash, \<open>\1\<close> and
  \<open>\g<1>\<close> a group of the match, a backslash before any other ASCII letter is an error,
  before any other character it stays as it is). A template that does not parse makes
  \<open>re.sub\<close> raise; the model returns \<open>None\<close> then. The rules are those of the \<open>re\<close>
  module of Python 3.12 and later, for patterns that have no named group.
\<close>

datatype tok = Chr char | Esc char

fun tokenize :: "string \<Rightarrow> tok list option" where
  "tokenize [] = Some []"
| "tokenize [c] = (if c = BACKSLASH then None else Some [Chr c])"
| "tokenize (c # d # ds) =
     (if c = BACKSLASH then map_option ((#) (Esc d)) (tokenize ds)
      else map_option ((#) (Chr c)) (tokenize (d # ds)))"

datatype piece = Literal string | GroupRef nat

definition is_digit :: "char \<Rightarrow> bool" where
  "is_digit c = (c \<in> set ''0123456789'')"

definition is_octdigit :: "char \<Rightarrow> bool" where
  "is_octdigit c = (c \<in> set ''01234567'')"

definition is_ascii_letter :: "char \<Rightarrow> bool" where
  "is_ascii_letter c =
     (c \<in> set ''abcdefghijklmnopqrstuvwxyzABCDEFGHIJKLMNOPQRSTUVWXYZ'')"

definition digit_val :: "char \<Rightarrow> nat" where
  "digit_val c = of_char c - 48"

fun tok_digit :: "tok \<Rightarrow> bool" where
  "tok_digit (Chr c) = is_digit c"
| "tok_digit (Esc c) = False"

fun tok_octdigit :: "tok \<Rightarrow> bool" where
  "tok_octdigit (Chr c) = is_octdigit c"
| "tok_octdigit (Esc c) = False"

fun tok_val :: "tok \<Rightarrow> nat" where
  "tok_val (Chr c) = digit_val c"
| "tok_val (Esc c) = 0"

text \<open>The value of a run of digit tokens in the given base.\<close>

definition digits_val :: "nat \<Rightarrow> tok list \<Rightarrow> nat" where
  "digits_val base ds = foldl (\<lambda>acc t. acc * base + tok_val t) 0 ds"

text \<open>The escapes that stand for one character.\<close>

definition escape_char :: "char \<Rightarrow> char option" where
  "escape_char c =
     (if c = CHR ''a'' then Some (CHR 0x07)
      else if c = CHR ''b'' then Some (CHR 0x08)
      else if c = CHR ''f'' then Some (CHR 0x0C)
      else if c = CHR ''n'' then Some (CHR 0x0A)
      else if c = CHR ''r'' then Some (CHR 0x0D)
      else if c = CHR ''t'' then Some (CHR 0x09)
      else if c = CHR ''v'' then Some (CHR 0x0B)
      else if c = BACKSLASH then Some BACKSLASH
      else None)"

text \<open>A reference to group \<open>index\<close> of a pattern with \<open>groups\<close> groups.\<close>

definition addgroup :: "nat \<Rightarrow> nat \<Rightarrow> piece option" where
  "addgroup groups index = (if index > groups then None else Some (GroupRef index))"

text \<open>One escape \<open>\c\<close> at the head of the template, with the tokens after it: the piece
  it stands for and how many of the following tokens belong to it.\<close>

definition parse_escape :: "nat \<Rightarrow> char \<Rightarrow> tok list \<Rightarrow> (piece \<times> nat) option" where
  "parse_escape groups c ts =
     (if c = CHR ''g'' then
        (case ts of
           Chr b # ts' \<Rightarrow>
             if b \<noteq> CHR ''<'' then None
             else
               (let name = takeWhile (\<lambda>t. t \<noteq> Chr (CHR ''>'')) ts' in
                if length name = length ts' then None
                else if name = [] then None
                else if list_all tok_digit name then
                  map_option (\<lambda>p. (p, length name + 2)) (addgroup groups (digits_val 10 name))
                else None)
         | _ \<Rightarrow> None)
      else if c = CHR ''0'' then
        (let ds = takeWhile tok_octdigit (take 2 ts) in
         Some (Literal [char_of (digits_val 8 ds mod 256)], length ds))
      else if is_digit c then
        (case ts of
           d2 # ts' \<Rightarrow>
             if tok_digit d2 then
               (case ts' of
                  d3 # _ \<Rightarrow>
                    if is_octdigit c \<and> tok_octdigit d2 \<and> tok_octdigit d3 then
                      (let v = digits_val 8 [Chr c, d2, d3] in
                       if v > 255 then None else Some (Literal [char_of v], 2))
                    else map_option (\<lambda>p. (p, 1)) (addgroup groups (digits_val 10 [Chr c, d2]))
                | [] \<Rightarrow> map_option (\<lambda>p. (p, 1)) (addgroup groups (digits_val 10 [Chr c, d2])))
             else map_option (\<lambda>p. (p, 0)) (addgroup groups (digit_val c))
         | [] \<Rightarrow> map_option (\<lambda>p. (p, 0)) (addgroup groups (digit_val c)))
      else
        (case escape_char c of
           Some e \<Rightarrow> Some (Literal [e], 0)
         | None \<Rightarrow> if is_ascii_letter c then None else Some (Literal [BACKSLASH, c], 0)))"

text \<open>The template as pieces. \<open>skip\<close> counts the tokens that the last escape has
  already used.\<close>

fun parse_template :: "nat \<Rightarrow> nat \<Rightarrow> tok list \<Rightarrow> piece list option" where
  "parse_template groups skip [] = Some []"
| "parse_template groups (Suc skip) (t # ts) = parse_template groups skip ts"
| "parse_template groups 0 (Chr c # ts) =
     map_option ((#) (Literal [c])) (parse_template groups 0 ts)"
| "parse_template groups 0 (Esc c # ts) =
     (case parse_escape groups c ts of
        None \<Rightarrow> None
      | Some (p, used) \<Rightarrow> map_option ((#) p) (parse_template groups used ts))"

text \<open>The text a template stands for at one match: group 0 is the whole match.\<close>

fun expand_piece :: "string \<Rightarrow> string list \<Rightarrow> piece \<Rightarrow> string" where
  "expand_piece whole gs (Literal s) = s"
| "expand_piece whole gs (GroupRef i) =
     (if i = 0 then whole else (case drop (i - 1) gs of g # _ \<Rightarrow> g | [] \<Rightarrow> []))"

definition expand_template :: "piece list \<Rightarrow> string \<Rightarrow> string list \<Rightarrow> string" where
  "expand_template pieces whole gs = concat (map (expand_piece whole gs) pieces)"

text \<open>
  Both scripts use one shape of pattern, \<open>attr="[^"]*"\<close>: the literal \<open>lit\<close> (the
  attribute name, \<open>=\<close> and the opening quote), then every character up to the next
  double quote. \<open>match_at\<close> is a match at the very start of \<open>s\<close>: the quoted value and
  the text after the closing quote.
\<close>

definition match_at :: "string \<Rightarrow> string \<Rightarrow> (string \<times> string) option" where
  "match_at lit s =
     (if startswith s lit then
        (case dropWhile (\<lambda>c. c \<noteq> DQUOTE) (drop (length lit) s) of
           [] \<Rightarrow> None
         | q # rest \<Rightarrow> Some (takeWhile (\<lambda>c. c \<noteq> DQUOTE) (drop (length lit) s), rest))
      else None)"


text \<open>The scan of \<open>re.sub\<close>: every match, leftmost first and without overlap, is replaced
  by \<open>repl\<close> of its quoted value. \<open>skip\<close> counts the characters of the last match still
  to pass over.\<close>

fun sub_scan :: "string \<Rightarrow> (string \<Rightarrow> string) \<Rightarrow> nat \<Rightarrow> string \<Rightarrow> string" where
  "sub_scan lit repl skip [] = []"
| "sub_scan lit repl (Suc skip) (c # cs) = sub_scan lit repl skip cs"
| "sub_scan lit repl 0 (c # cs) =
     (case match_at lit (c # cs) of
        Some (v, rest) \<Rightarrow> repl v @ sub_scan lit repl (length lit + length v) cs
      | None \<Rightarrow> c # sub_scan lit repl 0 cs)"

text \<open>\<open>re.sub\<close> for the pattern of \<open>lit\<close>; \<open>capture\<close> says whether the quoted value is
  group 1 (\<open>x-tvg-url="([^"]*)"\<close>) or the pattern has no group (\<open>tvg-name="[^"]*"\<close>).\<close>

definition re_sub :: "string \<Rightarrow> bool \<Rightarrow> string \<Rightarrow> string \<Rightarrow> string option" where
  "re_sub lit capture template s =
     (case tokenize template of
        None \<Rightarrow> None
      | Some toks \<Rightarrow>
          (case parse_template (if capture then 1 else 0) 0 toks of
             None \<Rightarrow> None
           | Some pieces \<Rightarrow>
               Some (sub_scan lit
                 (\<lambda>v. expand_template pieces (lit @ v @ [DQUOTE]) (if capture then [v] else []))
                 0 s)))"

subsection \<open>Renaming\<close>

text \<open>\<open>rename_inf\<close>: \<open>None\<close> when \<open>re.sub\<close> raises on the template built from the name.\<close>

definition rename_inf :: "string \<Rightarrow> string \<Rightarrow> string option" where
  "rename_inf inf_line name =
     (case (if str_in ''tvg-name=\"'' inf_line
            then re_sub ''tvg-name=\"'' False (''tvg-name=\"'' @ name @ ''\"'') inf_line
            else Some inf_line) of
        None \<Rightarrow> None
      | Some l \<Rightarrow>
          if str_in '','' l then Some (before_last (CHR '','') l @ '','' @ name)
          else Some (l @ '','' @ name))"

subsection \<open>Writing\<close>

text \<open>\<open>is_target\<close>, \<open>final_inf\<close>, \<open>should_sort\<close> and the lines written under the info
  line, for one channel.\<close>

definition is_target :: "string list option \<Rightarrow> channel \<Rightarrow> bool" where
  "is_target target_channels ch =
     (case target_channels of
        None \<Rightarrow> False
      | Some tcs \<Rightarrow> if tcs \<noteq> [] then list_ex (\<lambda>tc. str_in tc (ch_inf ch)) tcs else False)"

definition final_inf :: "string list option \<Rightarrow> string option \<Rightarrow> channel \<Rightarrow> string option" where
  "final_inf target_channels new_name ch =
     (case new_name of
        None \<Rightarrow> Some (ch_inf ch)
      | Some name \<Rightarrow>
          if is_target target_channels ch \<and> name \<noteq> [] then rename_inf (ch_inf ch) name
          else Some (ch_inf ch))"

definition should_sort :: "string list option \<Rightarrow> channel \<Rightarrow> bool" where
  "should_sort target_channels ch =
     (if truthy_list target_channels then is_target target_channels ch else True)"

definition written_urls :: "string list \<Rightarrow> bool \<Rightarrow> string list option \<Rightarrow> channel \<Rightarrow> string list" where
  "written_urls keywords reverse_mode target_channels ch =
     (if should_sort target_channels ch \<and> ch_urls ch \<noteq> []
      then sorted_by (get_sort_score keywords reverse_mode) (ch_urls ch)
      else ch_urls ch)"

text \<open>
  What a run leaves behind. The input cannot be read: nothing is written. The loop over
  the channels runs to its end: the file holds everything. \<open>rename_inf\<close> raises at some
  channel: the handler prints the error, and the file holds what was written before.
\<close>

datatype outcome = ReadError | Written string | WriteError string

fun write_channels ::
  "(channel \<Rightarrow> string option) \<Rightarrow> (channel \<Rightarrow> string list) \<Rightarrow> channel list \<Rightarrow> string \<Rightarrow> outcome"
where
  "write_channels fin srt [] f = Written f"
| "write_channels fin srt (ch # chs) f =
     (case fin ch of
        None \<Rightarrow> WriteError f
      | Some i \<Rightarrow> write_channels fin srt chs (f @ write_lines (i # srt ch)))"

text \<open>\<open>sort_m3u_urls\<close>. \<open>input\<close> is the text of the input file, \<open>None\<close> when it cannot be
  opened or decoded; the result holds the text of the output file.\<close>

definition sort_m3u_urls ::
  "string option \<Rightarrow> string \<Rightarrow> bool \<Rightarrow> string option \<Rightarrow> string option \<Rightarrow> outcome"
where
  "sort_m3u_urls input keywords_str reverse_mode target_channels_str new_name =
     (case input of
        None \<Rightarrow> ReadError
      | Some content \<Rightarrow>
          (let keywords = csv_items keywords_str;
               target_channels = target_channels_of target_channels_str;
               lines = readlines content
           in write_channels
                (final_inf target_channels new_name)
                (written_urls keywords reverse_mode target_channels)
                (parse_channels (drop (start_index lines) lines))
                (write_lines (processed_content lines))))"

section \<open>The header tool: \<open>m3u_header_tool.py\<close>\<close>









section \<open>Notions used in the statements and proofs\<close>

text \<open>An info line: a raw line whose trimmed text begins with \<open>#EXTINF\<close>.\<close>

definition is_info :: "string \<Rightarrow> bool" where
  "is_info raw = startswith (strip raw) ''#EXTINF''"

text \<open>The text of the output file after a run, \<open>None\<close> when no file was written.\<close>

definition output_file :: "outcome \<Rightarrow> string option" where
  "output_file res = (case res of ReadError \<Rightarrow> None | Written t \<Rightarrow> Some t | WriteError t \<Rightarrow> Some t)"

text \<open>
  The lines a run of the sorter writes: trimmed, not empty, and free of line ends. The
  lines of a parsed record are of this kind, the info line begins with \<open>#EXTINF\<close> and
  no other line does; so are the open record and the collected lines of every state
  of the channel loop.
\<close>

definition clean :: "string \<Rightarrow> bool" where
  "clean x = (x \<noteq> [] \<and> strip x = x \<and> LF \<notin> set x \<and> CR \<notin> set x)"

definition content_line :: "string \<Rightarrow> bool" where
  "content_line u = (clean u \<and> \<not> startswith u ''#EXTINF'')"

definition info_line :: "string \<Rightarrow> bool" where
  "info_line i = (clean i \<and> startswith i ''#EXTINF'')"

definition record_clean :: "channel \<Rightarrow> bool" where
  "record_clean ch = (info_line (ch_inf ch) \<and> list_all content_line (ch_urls ch))"

definition state_clean :: "parse_state \<Rightarrow> bool" where
  "state_clean st =
     (list_all record_clean (channels_data st) \<and>
      (case current_inf st of None \<Rightarrow> True | Some i \<Rightarrow> info_line i) \<and>
      list_all content_line (current_urls st))"


section \<open>Facts about the string helpers\<close>

lemma startswith_prefix: "startswith s p \<longleftrightarrow> prefix p s"
  by (induction s p rule: startswith.induct) auto

lemma str_in_sublist: "str_in sub s \<longleftrightarrow> sublist sub s"
proof (induction s)
  case Nil
  then show ?case by simp
next
  case (Cons c cs)
  then show ?case by (simp add: startswith_prefix sublist_Cons_right)
qed

lemma str_in_append: "str_in sub s \<longleftrightarrow> (\<exists>a b. s = a @ sub @ b)"
  by (simp add: str_in_sublist sublist_def)

section \<open>Facts about the sort\<close>

lemma insert_by_insort_key: "insert_by key x ys = insort_key key x ys"
  by (induction ys) simp_all

lemma sorted_by_sort_key: "sorted_by key xs = sort_key key xs"
  by (induction xs) (simp_all add: insert_by_insort_key)

lemma set_sorted_by: "set (sorted_by key xs) = set xs"
  by (simp add: sorted_by_sort_key)

lemma insert_by_append_le:
  "\<forall>y\<in>set ys. key x \<le> key y \<Longrightarrow> insert_by key x (xs @ ys) = insert_by key x xs @ ys"
proof (induction xs)
  case Nil
  then show ?case by (cases ys) simp_all
next
  case (Cons a xs)
  then show ?case by simp
qed

lemma insert_by_append_gt:
  "\<forall>y\<in>set xs. key y < key x \<Longrightarrow> insert_by key x (xs @ ys) = xs @ insert_by key x ys"
  by (induction xs) simp_all

section \<open>Scores\<close>

lemma score_loop_none:
  "\<forall>kw\<in>set rest. \<not> str_in kw item \<Longrightarrow> score_loop kws r item n rest = 0"
  by (induction rest arbitrary: n) simp_all

lemma score_loop_first:
  "i < length rest \<Longrightarrow> str_in (rest ! i) item \<Longrightarrow> \<forall>j<i. \<not> str_in (rest ! j) item \<Longrightarrow>
   score_loop kws r item n rest =
     (if r then int (n + i) + 1 else int (n + i) - int (length kws))"
proof (induction rest arbitrary: n i)
  case Nil
  then show ?case by simp
next
  case (Cons kw rest)
  show ?case
  proof (cases i)
    case 0
    with Cons.prems show ?thesis by simp
  next
    case (Suc k)
    with Cons.prems have k: "k < length rest" "str_in (rest ! k) item"
      by simp_all
    have earlier: "\<forall>j<k. \<not> str_in (rest ! j) item"
    proof (intro allI impI)
      fix j assume "j < k"
      then have "Suc j < i" using Suc by simp
      with Cons.prems(3) have "\<not> str_in ((kw # rest) ! Suc j) item" by blast
      then show "\<not> str_in (rest ! j) item" by simp
    qed
    have head: "\<not> str_in kw item"
      using Cons.prems(3) Suc by fastforce
    from Cons.IH [OF k earlier, of "n + 1"] head Suc show ?thesis by simp
  qed
qed

lemma score_loop_bounds:
  "n + length rest \<le> length kws \<Longrightarrow>
   score_loop kws r item n rest \<le> (if r then int (length kws) else 0)"
proof (induction rest arbitrary: n)
  case Nil
  then show ?case by simp
next
  case (Cons kw rest)
  from Cons.prems have "n + 1 + length rest \<le> length kws" by simp
  from Cons.IH [OF this] Cons.prems show ?case by auto
qed

text \<open>
  Claim C2. The score of a line: 9999 when the line does not contain \<open>://\<close>; 0 when it
  does and no keyword occurs in it; and when \<open>i\<close> is the index of the first keyword of the
  list that occurs in the line (anywhere in it, compared character by character),
  \<open>i - len(keywords)\<close> in normal mode and \<open>i + 1\<close> in reverse mode.
\<close>

theorem get_sort_score_cases:
  "(\<not> str_in ''://'' item \<longrightarrow> get_sort_score kws reverse_mode item = 9999) \<and>
   (str_in ''://'' item \<and> (\<forall>kw\<in>set kws. \<not> str_in kw item) \<longrightarrow>
      get_sort_score kws reverse_mode item = 0) \<and>
   (str_in ''://'' item \<and> i < length kws \<and> str_in (kws ! i) item \<and>
      (\<forall>j<i. \<not> str_in (kws ! j) item) \<longrightarrow>
      get_sort_score kws reverse_mode item =
        (if reverse_mode then int i + 1 else int i - int (length kws)))"
  using score_loop_first [where i = i and rest = kws and item = item
      and kws = kws and r = reverse_mode and n = 0]
  by (simp add: get_sort_score_def score_loop_none)

theorem get_sort_score_cases_witness:
  "get_sort_score [''cdn1'', ''cdn2''] False ''http://x/cdn2/a'' = - 1 \<and>
   get_sort_score [''cdn1'', ''cdn2''] True ''http://x/cdn2/a'' = 2 \<and>
   get_sort_score [''cdn1'', ''cdn2''] False ''http://x/other'' = 0 \<and>
   get_sort_score [''cdn1'', ''cdn2''] False ''#EXTGRP:cdn1'' = 9999"
  using get_sort_score_cases [of "''http://x/cdn2/a''" "[''cdn1'', ''cdn2'']" False 1]
    get_sort_score_cases [of "''http://x/cdn2/a''" "[''cdn1'', ''cdn2'']" True 1]
    get_sort_score_cases [of "''http://x/other''" "[''cdn1'', ''cdn2'']" False 0]
    get_sort_score_cases [of "''#EXTGRP:cdn1''" "[''cdn1'', ''cdn2'']" False 0]
  by (simp add: less_Suc_eq)


lemma filter_sorted_by:
  "filter (\<lambda>l. key l = k) (sorted_by key xs) = filter (\<lambda>l. key l = k) xs"
  by (simp add: sorted_by_sort_key sort_key_stable)

lemma sorted_sorted_by: "sorted (map key (sorted_by key xs))"
  by (simp add: sorted_by_sort_key)

lemma mset_sorted_by: "mset (sorted_by key xs) = mset xs"
  by (simp add: sorted_by_sort_key)

lemma sorted_by_fixed: "sorted_by key (sorted_by key xs) = sorted_by key xs"
  by (simp add: sorted_by_sort_key sort_key_id_if_sorted)

lemma score_url_le:
  "str_in ''://'' u \<Longrightarrow>
   get_sort_score kws r u \<le> (if r then int (length kws) else 0)"
  using score_loop_bounds [of 0 kws kws r u] by (simp add: get_sort_score_def)

lemma score_non_url: "\<not> str_in ''://'' n \<Longrightarrow> get_sort_score kws r n = 9999"
  by (simp add: get_sort_score_def)

lemma score_url_less:
  assumes "length kws < 9999" and "str_in ''://'' u"
  shows "get_sort_score kws r u < 9999"
  using score_url_le [OF assms(2), of kws r] assms(1) by (cases r) simp_all

lemma sorted_by_urls_first:
  assumes "length kws < 9999"
  shows "sorted_by (get_sort_score kws r) ls =
         sorted_by (get_sort_score kws r) (filter (str_in ''://'') ls) @
         filter (\<lambda>l. \<not> str_in ''://'' l) ls"
proof (induction ls)
  case Nil
  show ?case by simp
next
  case (Cons x xs)
  let ?f = "get_sort_score kws r"
  let ?S = "sorted_by ?f (filter (str_in ''://'') xs)"
  let ?N = "filter (\<lambda>l. \<not> str_in ''://'' l) xs"
  have S: "\<forall>y\<in>set ?S. ?f y < 9999"
    using score_url_less [OF assms] by (simp add: set_sorted_by)
  have N: "\<forall>y\<in>set ?N. ?f y = 9999"
    by (simp add: score_non_url)
  show ?case
  proof (cases "str_in ''://'' x")
    case True
    then have "?f x < 9999" by (rule score_url_less [OF assms])
    with N have "\<forall>y\<in>set ?N. ?f x \<le> ?f y" by simp
    then have "insert_by ?f x (?S @ ?N) = insert_by ?f x ?S @ ?N"
      by (rule insert_by_append_le)
    with True Cons.IH show ?thesis by simp
  next
    case False
    then have x: "?f x = 9999" by (rule score_non_url)
    with S have "\<forall>y\<in>set ?S. ?f y < ?f x" by simp
    then have "insert_by ?f x (?S @ ?N) = ?S @ insert_by ?f x ?N"
      by (rule insert_by_append_gt)
    moreover have "insert_by ?f x ?N = x # ?N"
      using insert_by_append_le [of ?N ?f x "[]"] N x by simp
    ultimately show ?thesis using False Cons.IH by simp
  qed
qed

text \<open>
  Claim C10. With fewer than 9999 keywords, in either mode, a line that contains \<open>://\<close>
  scores at most \<open>len(keywords)\<close> (reverse mode) or 0 (normal mode), a line that does not
  scores 9999, which is strictly more; so the sorted list is the sorted lines with
  \<open>://\<close> followed by all the lines without it.
\<close>

theorem non_url_lines_sort_last:
  assumes "length kws < 9999"
  shows "(str_in ''://'' u \<and> \<not> str_in ''://'' n \<longrightarrow>
            get_sort_score kws r u < get_sort_score kws r n) \<and>
         (str_in ''://'' u \<longrightarrow>
            get_sort_score kws r u \<le> (if r then int (length kws) else 0)) \<and>
         (\<not> str_in ''://'' n \<longrightarrow> get_sort_score kws r n = 9999) \<and>
         sorted_by (get_sort_score kws r) ls =
           sorted_by (get_sort_score kws r) (filter (str_in ''://'') ls) @
           filter (\<lambda>l. \<not> str_in ''://'' l) ls"
  using sorted_by_urls_first [OF assms, of r ls] score_url_less [OF assms, of u r]
  by (simp add: score_non_url score_url_le)

theorem non_url_lines_sort_last_witness:
  "get_sort_score [''cdn1''] True ''http://cdn1/a'' < get_sort_score [''cdn1''] True ''#EXTGRP:x'' \<and>
   sorted_by (get_sort_score [''cdn1''] True) [''#EXTGRP:x'', ''http://cdn1/a''] =
     [''http://cdn1/a'', ''#EXTGRP:x'']"
  using non_url_lines_sort_last [of "[''cdn1'']" "''http://cdn1/a''" "''#EXTGRP:x''" True
      "[''#EXTGRP:x'', ''http://cdn1/a'']"]
  by (simp add: get_sort_score_def)

text \<open>
  Claim C5. The lines written under a channel are a rearrangement of the channel's lines
  in which, for every score, the lines of that score stand in their input order; where
  the channel is sorted they are in ascending order of score.
\<close>

theorem written_urls_stable:
  "filter (\<lambda>l. get_sort_score kws r l = k) (written_urls kws r tcs ch) =
     filter (\<lambda>l. get_sort_score kws r l = k) (ch_urls ch) \<and>
   mset (written_urls kws r tcs ch) = mset (ch_urls ch) \<and>
   (should_sort tcs ch \<longrightarrow> sorted (map (get_sort_score kws r) (written_urls kws r tcs ch)))"
  by (simp add: written_urls_def filter_sorted_by mset_sorted_by sorted_sorted_by)

theorem written_urls_stable_witness:
  "should_sort None \<lparr>ch_inf = ''#EXTINF:-1,A'', ch_urls = [''http://b/1'', ''http://a/1'', ''http://b/2'']\<rparr> \<and>
   filter (\<lambda>l. get_sort_score [''a''] False l = 0)
     (written_urls [''a''] False None
        \<lparr>ch_inf = ''#EXTINF:-1,A'', ch_urls = [''http://b/1'', ''http://a/1'', ''http://b/2'']\<rparr>) =
     [''http://b/1'', ''http://b/2''] \<and>
   sorted (map (get_sort_score [''a''] False)
     (written_urls [''a''] False None
        \<lparr>ch_inf = ''#EXTINF:-1,A'', ch_urls = [''http://b/1'', ''http://a/1'', ''http://b/2'']\<rparr>))"
  using written_urls_stable [of "[''a'']" False 0 None
      "\<lparr>ch_inf = ''#EXTINF:-1,A'', ch_urls = [''http://b/1'', ''http://a/1'', ''http://b/2'']\<rparr>"]
  by (simp add: should_sort_def get_sort_score_def)


section \<open>Targets and renaming\<close>

lemma final_inf_not_target:
  "\<not> is_target tcs ch \<Longrightarrow> final_inf tcs new_name ch = Some (ch_inf ch)"
  by (simp add: final_inf_def split: option.splits)

lemma is_target_global: "\<not> truthy_list tcs \<Longrightarrow> \<not> is_target tcs ch"
  by (cases tcs) (simp_all add: is_target_def)

lemma write_channels_cong:
  "\<forall>ch\<in>set chs. fin ch = fin' ch \<and> srt ch = srt' ch \<Longrightarrow>
   write_channels fin srt chs f = write_channels fin' srt' chs f"
  by (induction chs arbitrary: f) (simp_all split: option.splits)

text \<open>
  Claim C1, as amended. In global mode (no target filter: the argument is absent, empty,
  or holds no entry) no channel is a target, whatever the rename string: every channel
  is still sorted, every info line is written as it was parsed, and the output is the
  output of the same run with no rename string.
\<close>

theorem global_mode_never_renames:
  "\<not> truthy_list (target_channels_of target_channels_str) \<longrightarrow>
     \<not> is_target (target_channels_of target_channels_str) ch \<and>
     should_sort (target_channels_of target_channels_str) ch \<and>
     final_inf (target_channels_of target_channels_str) new_name ch = Some (ch_inf ch) \<and>
     sort_m3u_urls input keywords_str reverse_mode target_channels_str new_name =
       sort_m3u_urls input keywords_str reverse_mode target_channels_str None"
proof
  let ?tcs = "target_channels_of target_channels_str"
  assume global: "\<not> truthy_list ?tcs"
  have nt: "\<not> is_target ?tcs c" for c
    using global by (rule is_target_global)
  have fi: "final_inf ?tcs nn c = Some (ch_inf c)" for nn c
    using nt by (rule final_inf_not_target)
  have "write_channels (final_inf ?tcs new_name) srt chs f =
        write_channels (final_inf ?tcs None) srt chs f" for srt chs f
    by (rule write_channels_cong) (simp add: fi)
  then have "sort_m3u_urls input keywords_str reverse_mode target_channels_str new_name =
       sort_m3u_urls input keywords_str reverse_mode target_channels_str None"
    by (simp add: sort_m3u_urls_def split: option.splits)
  moreover have "should_sort ?tcs ch"
    using global by (simp add: should_sort_def)
  ultimately show "\<not> is_target ?tcs ch \<and> should_sort ?tcs ch \<and>
     final_inf ?tcs new_name ch = Some (ch_inf ch) \<and>
     sort_m3u_urls input keywords_str reverse_mode target_channels_str new_name =
       sort_m3u_urls input keywords_str reverse_mode target_channels_str None"
    using nt fi by simp
qed

theorem global_mode_never_renames_witness:
  "\<not> truthy_list (target_channels_of None) \<and>
   final_inf (target_channels_of None) (Some ''New'')
     \<lparr>ch_inf = ''#EXTINF:-1,Old'', ch_urls = [''http://a/x'']\<rparr> = Some ''#EXTINF:-1,Old'' \<and>
   sort_m3u_urls (Some ''#EXTINF:-1,Old'') ''a'' False None (Some ''New'') =
     sort_m3u_urls (Some ''#EXTINF:-1,Old'') ''a'' False None None"
  using global_mode_never_renames [of None
      "\<lparr>ch_inf = ''#EXTINF:-1,Old'', ch_urls = [''http://a/x'']\<rparr>" "Some ''New''"
      "Some ''#EXTINF:-1,Old''" "''a''" False]
  by (simp add: target_channels_of_def)

text \<open>
  The claim as the specification states it fails: with a rename string and no target
  filter the info line is written unchanged, where renaming it would have given
  \<open>#EXTINF:-1,New\<close>.
\<close>

theorem global_mode_rename_counterexample:
  "sort_m3u_urls (Some ''#EXTINF:-1,Old\<newline>http://a/x\<newline>'') ''a'' False None (Some ''New'') =
     Written ''#EXTINF:-1,Old\<newline>http://a/x\<newline>'' \<and>
   \<not> is_target (target_channels_of None) \<lparr>ch_inf = ''#EXTINF:-1,Old'', ch_urls = [''http://a/x'']\<rparr> \<and>
   rename_inf ''#EXTINF:-1,Old'' ''New'' = Some ''#EXTINF:-1,New''"
  by (simp add: sort_m3u_urls_def target_channels_of_def readlines_def start_index_def
      has_header_def processed_content_def write_lines_def parse_channels_def parse_step_def
      init_state_def flush_def strip_def lstrip_def rstrip_def is_space_def final_inf_def
      is_target_def written_urls_def should_sort_def get_sort_score_def csv_items_def
      rename_inf_def before_last_def)



section \<open>Trimming\<close>

lemma rstrip_prefix: "prefix (rstrip s) s"
proof -
  have "rev s = takeWhile is_space (rev s) @ dropWhile is_space (rev s)" by simp
  then have "s = rev (dropWhile is_space (rev s)) @ rev (takeWhile is_space (rev s))"
    by (metis rev_append rev_rev_ident)
  then show ?thesis unfolding rstrip_def by (metis prefixI)
qed

lemma rstrip_rstrip: "rstrip (rstrip s) = rstrip s"
  by (simp add: rstrip_def)

lemma lstrip_fixed: "s = [] \<or> \<not> is_space (hd s) \<Longrightarrow> lstrip s = s"
  by (simp add: lstrip_def dropWhile_eq_self_iff)

lemma lstrip_hd: "lstrip s = [] \<or> \<not> is_space (hd (lstrip s))"
  unfolding lstrip_def using hd_dropWhile [of is_space s] by blast

lemma hd_rstrip: "rstrip s \<noteq> [] \<Longrightarrow> hd (rstrip s) = hd s"
proof -
  assume ne: "rstrip s \<noteq> []"
  obtain zs where "s = rstrip s @ zs"
    using rstrip_prefix [of s] by (auto simp: prefix_def)
  then have "hd s = hd (rstrip s @ zs)" by simp
  also have "\<dots> = hd (rstrip s)" using ne by simp
  finally show ?thesis by simp
qed

lemma lstrip_strip: "lstrip (strip s) = strip s"
proof (rule lstrip_fixed)
  show "strip s = [] \<or> \<not> is_space (hd (strip s))"
  proof (cases "strip s = []")
    case True
    then show ?thesis by simp
  next
    case False
    then have ne: "rstrip (lstrip s) \<noteq> []" by (simp add: strip_def)
    then have "lstrip s \<noteq> []" by (auto simp: rstrip_def)
    with lstrip_hd [of s] have "\<not> is_space (hd (lstrip s))" by simp
    with hd_rstrip [OF ne] show ?thesis by (simp add: strip_def)
  qed
qed

lemma strip_strip: "strip (strip s) = strip s"
proof -
  have "strip (strip s) = rstrip (strip s)" by (simp add: strip_def [of "strip s"] lstrip_strip)
  also have "\<dots> = strip s" by (simp add: strip_def rstrip_rstrip)
  finally show ?thesis .
qed

lemma strip_append_space: "is_space c \<Longrightarrow> strip (s @ [c]) = strip s"
proof (cases "\<forall>x\<in>set s. is_space x")
  case True
  assume c: "is_space c"
  from True have a: "lstrip s = []" by (simp add: lstrip_def)
  from True c have b: "lstrip (s @ [c]) = []" by (simp add: lstrip_def)
  show ?thesis unfolding strip_def a b by (rule refl)
next
  case False
  assume "is_space c"
  with False show ?thesis by (auto simp: strip_def lstrip_def rstrip_def dropWhile_append)
qed

lemma set_strip: "set (strip s) \<subseteq> set s"
  unfolding strip_def lstrip_def rstrip_def
  by (auto dest!: set_dropWhileD)

lemma sublist_dropWhile_keep:
  assumes "sublist m s" and "m \<noteq> []" and "\<not> P (hd m)"
  shows "sublist m (dropWhile P s)"
proof -
  from assms(1) obtain a b where s: "s = a @ m @ b" by (auto simp: sublist_def)
  have mb: "dropWhile P (m @ b) = m @ b"
    using assms(2,3) by (cases m) simp_all
  show ?thesis
  proof (cases "\<forall>x\<in>set a. P x")
    case True
    then have "dropWhile P s = m @ b" using s mb by (simp add: dropWhile_append)
    then show ?thesis by simp
  next
    case False
    then have "dropWhile P s = dropWhile P a @ m @ b" using s by (auto simp: dropWhile_append)
    then show ?thesis by simp
  qed
qed

lemma str_in_strip:
  assumes "str_in m s" and "m \<noteq> []" and "\<not> is_space (hd m)" and "\<not> is_space (last m)"
  shows "str_in m (strip s)"
proof -
  have 1: "sublist m (lstrip s)"
    unfolding lstrip_def using assms(1-3) by (intro sublist_dropWhile_keep) (simp_all add: str_in_sublist)
  then have "sublist (rev m) (rev (lstrip s))" by simp
  then have "sublist (rev m) (dropWhile is_space (rev (lstrip s)))"
    using assms(2,4) by (intro sublist_dropWhile_keep) (simp_all add: hd_rev)
  then have "sublist m (rev (dropWhile is_space (rev (lstrip s))))"
    by (simp add: sublist_rev_left)
  then show ?thesis by (simp add: str_in_sublist strip_def rstrip_def)
qed

lemma str_in_snoc:
  assumes "str_in m (x @ [c])" and "c \<notin> set m" and "m \<noteq> []"
  shows "str_in m x"
proof -
  from assms(1) obtain a b where e: "x @ [c] = a @ m @ b" by (auto simp: str_in_append)
  show ?thesis
  proof (cases b rule: rev_cases)
    case Nil
    with e have "last m = c" using assms(3) by (metis append_Nil2 last_appendR last_snoc)
    with assms(2,3) show ?thesis using last_in_set by blast
  next
    case (snoc b' d)
    with e have "x = a @ m @ b'" by (metis append_assoc butlast_snoc)
    then show ?thesis by (auto simp: str_in_append)
  qed
qed

lemma str_in_snoc_iff: "c \<notin> set m \<Longrightarrow> m \<noteq> [] \<Longrightarrow> str_in m (x @ [c]) = str_in m x"
  using str_in_snoc [of m x c] by (auto simp: str_in_sublist sublist_append)

section \<open>The channel loop\<close>

lemma parse_step_blank: "strip raw = [] \<Longrightarrow> parse_step st raw = st"
  by (simp add: parse_step_def)

lemma parse_step_info:
  "is_info raw \<Longrightarrow>
   parse_step st raw = \<lparr>channels_data = flush st, current_inf = Some (strip raw), current_urls = []\<rparr>"
  by (auto simp: parse_step_def is_info_def Let_def)

lemma parse_step_content:
  "strip raw \<noteq> [] \<Longrightarrow> \<not> is_info raw \<Longrightarrow>
   parse_step st raw = st\<lparr>current_urls := current_urls st @ [strip raw]\<rparr>"
  by (simp add: parse_step_def is_info_def Let_def)

lemma is_info_nonblank: "is_info raw \<Longrightarrow> strip raw \<noteq> []"
  by (auto simp: is_info_def)

lemma parse_step_cases:
  obtains (blank) "strip raw = []" "parse_step st raw = st"
  | (info) "is_info raw" "strip raw \<noteq> []"
      "parse_step st raw = \<lparr>channels_data = flush st, current_inf = Some (strip raw), current_urls = []\<rparr>"
  | (content) "strip raw \<noteq> []" "\<not> is_info raw"
      "parse_step st raw = st\<lparr>current_urls := current_urls st @ [strip raw]\<rparr>"
  using parse_step_blank parse_step_info parse_step_content is_info_nonblank by blast

lemma flush_open:
  "i \<noteq> [] \<Longrightarrow>
   flush \<lparr>channels_data = cs, current_inf = Some i, current_urls = us\<rparr> = cs @ [\<lparr>ch_inf = i, ch_urls = us\<rparr>]"
  by (simp add: flush_def)







section \<open>The writing loop\<close>

lemma write_lines_append: "write_lines (a @ b) = write_lines a @ write_lines b"
  by (simp add: write_lines_def)

lemma write_channels_prefix:
  "\<exists>tail. output_file (write_channels fin srt chs f) = Some (f @ tail)"
proof (induction chs arbitrary: f)
  case Nil
  show ?case by (simp add: output_file_def)
next
  case (Cons ch chs)
  show ?case
  proof (cases "fin ch")
    case None
    then show ?thesis by (simp add: output_file_def)
  next
    case (Some i)
    from Cons.IH [of "f @ write_lines (i # srt ch)"] obtain tail
      where "output_file (write_channels fin srt chs (f @ write_lines (i # srt ch))) =
             Some ((f @ write_lines (i # srt ch)) @ tail)" by blast
    with Some show ?thesis by simp
  qed
qed

lemma write_channels_all:
  "\<forall>ch\<in>set chs. fin ch = Some (g ch) \<Longrightarrow>
   write_channels fin srt chs f =
     Written (f @ write_lines (concat (map (\<lambda>ch. g ch # srt ch) chs)))"
  by (induction chs arbitrary: f) (simp_all add: write_lines_def)

lemma final_inf_no_rename: "final_inf tcs None ch = Some (ch_inf ch)"
  by (simp add: final_inf_def)

text \<open>A run with no rename string writes the header line, if there is one, and then
  each record: its info line, then its lines.\<close>

lemma pass_no_rename:
  "sort_m3u_urls (Some content) ks r tcs None =
     Written (write_lines (processed_content (readlines content) @
       concat (map (\<lambda>ch. ch_inf ch # written_urls (csv_items ks) r (target_channels_of tcs) ch)
         (parse_channels (drop (start_index (readlines content)) (readlines content))))))"
proof -
  have "write_channels (final_inf t None) srt chs f =
        Written (f @ write_lines (concat (map (\<lambda>ch. ch_inf ch # srt ch) chs)))" for t srt chs f
    by (rule write_channels_all) (simp add: final_inf_no_rename)
  then show ?thesis
    by (simp add: sort_m3u_urls_def Let_def write_lines_append)
qed



section \<open>The header line\<close>

lemma sort_m3u_urls_header:
  assumes "readlines content = l0 # rest" and "str_in ''#EXTM3U'' l0"
  shows "sort_m3u_urls (Some content) ks r tcs nn =
         write_channels (final_inf (target_channels_of tcs) nn)
           (written_urls (csv_items ks) r (target_channels_of tcs))
           (parse_channels rest) (strip l0 @ [LF])"
  using assms
  by (simp add: sort_m3u_urls_def start_index_def has_header_def processed_content_def
      write_lines_def Let_def)

lemma sort_m3u_urls_no_header:
  assumes "\<not> has_header (readlines content)"
  shows "sort_m3u_urls (Some content) ks r tcs nn =
         write_channels (final_inf (target_channels_of tcs) nn)
           (written_urls (csv_items ks) r (target_channels_of tcs))
           (parse_channels (readlines content)) []"
  using assms
  by (simp add: sort_m3u_urls_def start_index_def processed_content_def write_lines_def Let_def)

text \<open>
  Claim C4, as amended. When the first line of the input, blank or not, contains
  \<open>#EXTM3U\<close>, that line, trimmed, is the first line of the output, and the channels are
  parsed from the lines after it.
\<close>

theorem first_line_header:
  "readlines content = l0 # rest \<and> str_in ''#EXTM3U'' l0 \<longrightarrow>
     sort_m3u_urls (Some content) ks r tcs nn =
       write_channels (final_inf (target_channels_of tcs) nn)
         (written_urls (csv_items ks) r (target_channels_of tcs))
         (parse_channels rest) (strip l0 @ [LF]) \<and>
     (\<exists>tail. output_file (sort_m3u_urls (Some content) ks r tcs nn) =
        Some (strip l0 @ [LF] @ tail))"
proof
  assume a: "readlines content = l0 # rest \<and> str_in ''#EXTM3U'' l0"
  then have eq: "sort_m3u_urls (Some content) ks r tcs nn =
       write_channels (final_inf (target_channels_of tcs) nn)
         (written_urls (csv_items ks) r (target_channels_of tcs))
         (parse_channels rest) (strip l0 @ [LF])"
    by (intro sort_m3u_urls_header) simp_all
  from write_channels_prefix obtain tail where
    "output_file (write_channels (final_inf (target_channels_of tcs) nn)
         (written_urls (csv_items ks) r (target_channels_of tcs))
         (parse_channels rest) (strip l0 @ [LF])) = Some ((strip l0 @ [LF]) @ tail)"
    by blast
  with eq show "sort_m3u_urls (Some content) ks r tcs nn =
       write_channels (final_inf (target_channels_of tcs) nn)
         (written_urls (csv_items ks) r (target_channels_of tcs))
         (parse_channels rest) (strip l0 @ [LF]) \<and>
     (\<exists>tail. output_file (sort_m3u_urls (Some content) ks r tcs nn) =
        Some (strip l0 @ [LF] @ tail))"
    by simp
qed

theorem first_line_header_witness:
  "readlines '' #EXTM3U x \<newline>#EXTINF:-1,A\<newline>http://a/x\<newline>'' =
     [ '' #EXTM3U x \<newline>'', ''#EXTINF:-1,A\<newline>'', ''http://a/x\<newline>''] \<and>
   str_in ''#EXTM3U'' '' #EXTM3U x \<newline>'' \<and>
   (\<exists>tail. output_file
      (sort_m3u_urls (Some '' #EXTM3U x \<newline>#EXTINF:-1,A\<newline>http://a/x\<newline>'') ''a'' False None None) =
      Some (''#EXTM3U x'' @ [LF] @ tail))"
proof -
  have rl: "readlines '' #EXTM3U x \<newline>#EXTINF:-1,A\<newline>http://a/x\<newline>'' =
     [ '' #EXTM3U x \<newline>'', ''#EXTINF:-1,A\<newline>'', ''http://a/x\<newline>'']"
    by (simp add: readlines_def)
  have si: "str_in ''#EXTM3U'' '' #EXTM3U x \<newline>''" by simp
  have st: "strip '' #EXTM3U x \<newline>'' = ''#EXTM3U x''"
    by (simp add: strip_def lstrip_def rstrip_def is_space_def)
  from first_line_header [of "'' #EXTM3U x \<newline>#EXTINF:-1,A\<newline>http://a/x\<newline>''"
      "'' #EXTM3U x \<newline>''" "[''#EXTINF:-1,A\<newline>'', ''http://a/x\<newline>'']" "''a''" False None None]
    rl si
  have ex: "\<exists>tail. output_file
      (sort_m3u_urls (Some '' #EXTM3U x \<newline>#EXTINF:-1,A\<newline>http://a/x\<newline>'') ''a'' False None None) =
      Some (strip '' #EXTM3U x \<newline>'' @ [LF] @ tail)"
    by blast
  from rl si ex [unfolded st] show ?thesis by blast
qed

text \<open>
  The claim as the specification states it fails when a blank line stands first: the
  first non-empty line holds the marker, but it is not the first line, so it is taken
  for a line of content before any channel and is lost.
\<close>

theorem first_nonempty_header_counterexample:
  "hd (filter (\<lambda>l. strip l \<noteq> []) (readlines ''\<newline>#EXTM3U\<newline>#EXTINF:-1,A\<newline>http://a/x\<newline>'')) =
     ''#EXTM3U\<newline>'' \<and>
   str_in ''#EXTM3U'' ''#EXTM3U\<newline>'' \<and>
   sort_m3u_urls (Some ''\<newline>#EXTM3U\<newline>#EXTINF:-1,A\<newline>http://a/x\<newline>'') ''a'' False None None =
     Written ''#EXTINF:-1,A\<newline>http://a/x\<newline>''"
  by (simp add: sort_m3u_urls_def target_channels_of_def readlines_def start_index_def
      has_header_def processed_content_def write_lines_def parse_channels_def parse_step_def
      init_state_def flush_def strip_def lstrip_def rstrip_def is_space_def final_inf_def
      is_target_def written_urls_def should_sort_def get_sort_score_def csv_items_def)

section \<open>Reading lines\<close>

lemma translate_newlines_no_CR: "CR \<notin> set (translate_newlines s)"
  by (induction s rule: translate_newlines.induct) simp_all

lemma translate_newlines_id: "CR \<notin> set s \<Longrightarrow> translate_newlines s = s"
  by (induction s rule: translate_newlines.induct) auto

lemma concat_split_keepends: "concat (split_keepends t) = t"
  by (induction t) (auto split: list.splits)

lemma split_keepends_lines:
  "l \<in> set (split_keepends t) \<Longrightarrow> l \<noteq> [] \<and> LF \<notin> set (butlast l)"
proof (induction t arbitrary: l)
  case Nil
  then show ?case by simp
next
  case (Cons c t)
  show ?case
  proof (cases "c = LF")
    case True
    with Cons show ?thesis by auto
  next
    case False
    show ?thesis
    proof (cases "split_keepends t")
      case Nil
      with False Cons.prems show ?thesis by simp
    next
      case (Cons m ms)
      with False Cons.prems have "l = c # m \<or> l \<in> set ms" by simp
      then show ?thesis
      proof
        assume l: "l = c # m"
        have "m \<noteq> [] \<and> LF \<notin> set (butlast m)"
          using Cons.IH [of m] Cons by simp
        with l False show ?thesis by simp
      next
        assume "l \<in> set ms"
        then show ?thesis using Cons.IH [of l] Cons by simp
      qed
    qed
  qed
qed

lemma split_keepends_line:
  "LF \<notin> set x \<Longrightarrow> split_keepends (x @ LF # t) = (x @ [LF]) # split_keepends t"
  by (induction x) auto

lemma split_keepends_write_lines:
  "\<forall>x\<in>set xs. LF \<notin> set x \<Longrightarrow> split_keepends (write_lines xs) = map (\<lambda>x. x @ [LF]) xs"
  by (induction xs) (simp_all add: write_lines_def split_keepends_line)

lemma set_write_lines: "set (write_lines xs) \<subseteq> insert LF (\<Union>x\<in>set xs. set x)"
  by (auto simp: write_lines_def)

lemma readlines_write_lines:
  assumes "\<forall>x\<in>set xs. LF \<notin> set x \<and> CR \<notin> set x"
  shows "readlines (write_lines xs) = map (\<lambda>x. x @ [LF]) xs"
proof -
  have "CR \<notin> set (write_lines xs)"
    using assms set_write_lines [of xs] by auto
  then have "translate_newlines (write_lines xs) = write_lines xs"
    by (rule translate_newlines_id)
  then show ?thesis
    using assms by (simp add: readlines_def split_keepends_write_lines)
qed

lemma readlines_strip_chars:
  assumes "l \<in> set (readlines content)"
  shows "LF \<notin> set (strip l) \<and> CR \<notin> set (strip l)"
proof -
  let ?t = "translate_newlines content"
  from assms have l: "l \<in> set (split_keepends ?t)" by (simp add: readlines_def)
  then have "set l \<subseteq> set (concat (split_keepends ?t))" by auto
  then have "CR \<notin> set l"
    using translate_newlines_no_CR [of content] by (auto simp: concat_split_keepends)
  then have cr: "CR \<notin> set (strip l)" using set_strip [of l] by auto
  from split_keepends_lines [OF l] have ne: "l \<noteq> []" and bl: "LF \<notin> set (butlast l)"
    by simp_all
  have "LF \<notin> set (strip l)"
  proof (cases "last l = LF")
    case True
    with ne have "l = butlast l @ [LF]" by (metis append_butlast_last_id)
    then have "strip l = strip (butlast l)"
      using strip_append_space [of LF "butlast l"] by (simp add: is_space_def)
    then show ?thesis using bl set_strip [of "butlast l"] by auto
  next
    case False
    from ne have "set l = set (butlast l) \<union> {last l}"
      by (metis append_butlast_last_id list.simps(15) set_append empty_set)
    with False bl have "LF \<notin> set l" by auto
    then show ?thesis using set_strip [of l] by auto
  qed
  with cr show ?thesis by simp
qed

section \<open>What the parser keeps\<close>

lemma readlines_clean:
  "l \<in> set (readlines content) \<Longrightarrow> strip l \<noteq> [] \<Longrightarrow> clean (strip l)"
  using readlines_strip_chars [of l content] by (simp add: clean_def strip_strip)

lemma state_clean_flush: "state_clean st \<Longrightarrow> list_all record_clean (flush st)"
  by (auto simp: state_clean_def flush_def record_clean_def split: option.splits)

lemma state_clean_step:
  assumes "state_clean st" and "strip raw = [] \<or> clean (strip raw)"
  shows "state_clean (parse_step st raw)"
proof (cases raw st rule: parse_step_cases)
  case blank
  with assms show ?thesis by simp
next
  case info
  with assms(2) have "info_line (strip raw)" by (simp add: info_line_def is_info_def)
  with info state_clean_flush [OF assms(1)] show ?thesis by (simp add: state_clean_def)
next
  case content
  with assms(2) have "content_line (strip raw)" by (simp add: content_line_def is_info_def)
  with content assms(1) show ?thesis by (simp add: state_clean_def)
qed

lemma state_clean_foldl:
  "state_clean st \<Longrightarrow> \<forall>l\<in>set body. strip l = [] \<or> clean (strip l) \<Longrightarrow>
   state_clean (foldl parse_step st body)"
  by (induction body arbitrary: st) (simp_all add: state_clean_step)

lemma parse_channels_clean:
  assumes "\<forall>l\<in>set body. strip l = [] \<or> clean (strip l)"
  shows "list_all record_clean (parse_channels body)"
proof -
  have "state_clean init_state" by (simp add: state_clean_def init_state_def)
  then have "state_clean (foldl parse_step init_state body)"
    using assms by (rule state_clean_foldl)
  then show ?thesis unfolding parse_channels_def by (rule state_clean_flush)
qed

section \<open>Parsing what was written\<close>

lemma parse_step_snoc: "parse_step st (x @ [LF]) = parse_step st x"
  using strip_append_space [of LF x] by (simp add: parse_step_def is_space_def)

lemma foldl_parse_step_snoc:
  "foldl parse_step st (map (\<lambda>x. x @ [LF]) xs) = foldl parse_step st xs"
  by (induction xs arbitrary: st) (simp_all add: parse_step_snoc)

lemma parse_step_content_line:
  "content_line u \<Longrightarrow> parse_step st u = st\<lparr>current_urls := current_urls st @ [u]\<rparr>"
  using parse_step_content [of u st] by (simp add: content_line_def clean_def is_info_def)

lemma parse_step_info_line:
  "info_line i \<Longrightarrow>
   parse_step st i = \<lparr>channels_data = flush st, current_inf = Some i, current_urls = []\<rparr>"
  using parse_step_info [of i st] by (simp add: info_line_def clean_def is_info_def)

lemma foldl_content_lines:
  "list_all content_line us \<Longrightarrow>
   foldl parse_step st us = st\<lparr>current_urls := current_urls st @ us\<rparr>"
  by (induction us arbitrary: st) (simp_all add: parse_step_content_line)

lemma foldl_record:
  assumes "record_clean ch"
  shows "flush (foldl parse_step st (ch_inf ch # ch_urls ch)) = flush st @ [ch]"
proof -
  from assms have i: "info_line (ch_inf ch)" and u: "list_all content_line (ch_urls ch)"
    by (simp_all add: record_clean_def)
  from i have ne: "ch_inf ch \<noteq> []" by (simp add: info_line_def clean_def)
  have "foldl parse_step st (ch_inf ch # ch_urls ch) =
        \<lparr>channels_data = flush st, current_inf = Some (ch_inf ch), current_urls = ch_urls ch\<rparr>"
    by (simp add: parse_step_info_line [OF i] foldl_content_lines [OF u])
  then show ?thesis using ne by (simp add: flush_open)
qed

lemma flush_foldl_emit:
  "list_all record_clean chs \<Longrightarrow>
   flush (foldl parse_step st (concat (map (\<lambda>ch. ch_inf ch # ch_urls ch) chs))) = flush st @ chs"
proof (induction chs arbitrary: st rule: rev_induct)
  case Nil
  show ?case by simp
next
  case (snoc ch chs)
  then have chs: "list_all record_clean chs" and ch: "record_clean ch" by simp_all
  let ?st = "foldl parse_step st (concat (map (\<lambda>ch. ch_inf ch # ch_urls ch) chs))"
  have "flush (foldl parse_step ?st (ch_inf ch # ch_urls ch)) = flush ?st @ [ch]"
    using ch by (rule foldl_record)
  also have "flush ?st = flush st @ chs" using chs by (rule snoc.IH)
  finally show ?case by simp
qed

lemma parse_channels_emit:
  "list_all record_clean chs \<Longrightarrow>
   parse_channels (concat (map (\<lambda>ch. ch_inf ch # ch_urls ch) chs)) = chs"
  using flush_foldl_emit [of chs init_state]
  by (simp add: parse_channels_def) (simp add: init_state_def flush_def)

section \<open>Running the sorter on its own output\<close>

lemma written_urls_global:
  "written_urls kws r None ch = sorted_by (get_sort_score kws r) (ch_urls ch)"
  by (cases "ch_urls ch") (simp_all add: written_urls_def should_sort_def)

lemma written_urls_again:
  "written_urls kws r None (ch\<lparr>ch_urls := written_urls kws r None ch\<rparr>) = written_urls kws r None ch"
  by (simp add: written_urls_global sorted_by_fixed)

lemma record_clean_sorted:
  "record_clean ch \<Longrightarrow> record_clean (ch\<lparr>ch_urls := written_urls kws r None ch\<rparr>)"
  by (simp add: record_clean_def written_urls_global list_all_iff set_sorted_by)

lemma pass_global:
  "sort_m3u_urls (Some content) ks r None None =
     Written (write_lines (processed_content (readlines content) @
       concat (map (\<lambda>ch. ch_inf ch # written_urls (csv_items ks) r None ch)
         (parse_channels (drop (start_index (readlines content)) (readlines content))))))"
  using pass_no_rename [of content ks r None] by (simp add: target_channels_of_def)

lemma header_clean:
  assumes "has_header lines" and "lines = readlines content"
  shows "clean (strip (hd lines)) \<and> str_in ''#EXTM3U'' (strip (hd lines))"
proof -
  from assms(1) obtain l0 rest where l: "lines = l0 # rest" and m: "str_in ''#EXTM3U'' l0"
    by (auto simp: has_header_def split: list.splits)
  have s: "str_in ''#EXTM3U'' (strip l0)"
    using m by (rule str_in_strip) (simp_all add: is_space_def)
  then have "strip l0 \<noteq> []" by auto
  moreover have "l0 \<in> set (readlines content)" using l assms(2) by (metis list.set_intros(1))
  ultimately have "clean (strip l0)" by (intro readlines_clean)
  with s l show ?thesis by simp
qed

lemma marker_snoc: "str_in ''#EXTM3U'' (x @ [LF]) = str_in ''#EXTM3U'' x"
  by (rule str_in_snoc_iff) simp_all

lemma strip_clean_snoc: "clean x \<Longrightarrow> strip (x @ [LF]) = x"
  using strip_append_space [of LF x] by (simp add: clean_def is_space_def)

text \<open>The second run, from the lines the first run wrote.\<close>

lemma second_pass:
  assumes hdr: "hdr = [] \<or> (\<exists>h. hdr = [h] \<and> clean h \<and> str_in ''#EXTM3U'' h)"
    and chs: "list_all record_clean chs"
    and first: "hdr = [] \<longrightarrow> (case chs of [] \<Rightarrow> True | ch # _ \<Rightarrow> \<not> str_in ''#EXTM3U'' (ch_inf ch))"
    and lines: "lines = map (\<lambda>x. x @ [LF]) (hdr @ concat (map (\<lambda>ch. ch_inf ch # ch_urls ch) chs))"
  shows "processed_content lines = hdr \<and> parse_channels (drop (start_index lines) lines) = chs"
proof -
  let ?body = "concat (map (\<lambda>ch. ch_inf ch # ch_urls ch) chs)"
  have body: "parse_channels (map (\<lambda>x. x @ [LF]) ?body) = chs"
    using parse_channels_emit [OF chs]
    by (simp add: parse_channels_def foldl_parse_step_snoc)
  from hdr show ?thesis
  proof
    assume e: "hdr = []"
    have "\<not> has_header lines"
    proof (cases chs)
      case Nil
      with e lines show ?thesis by (simp add: has_header_def)
    next
      case (Cons ch rest)
      with first e have "\<not> str_in ''#EXTM3U'' (ch_inf ch)" by simp
      with Cons e lines show ?thesis by (simp add: has_header_def marker_snoc)
    qed
    with e lines body show ?thesis by (simp add: processed_content_def start_index_def)
  next
    assume "\<exists>h. hdr = [h] \<and> clean h \<and> str_in ''#EXTM3U'' h"
    then obtain h where h: "hdr = [h]" "clean h" "str_in ''#EXTM3U'' h" by blast
    with lines have l: "lines = (h @ [LF]) # map (\<lambda>x. x @ [LF]) ?body" by simp
    then have "has_header lines" using h(3) by (simp add: has_header_def marker_snoc)
    with l h body show ?thesis
      by (simp add: processed_content_def start_index_def strip_clean_snoc)
  qed
qed

text \<open>
  Claim C6, as amended. In global mode with no rename string, when the first line of
  the input contains \<open>#EXTM3U\<close> or the info line of the first channel does not, the run
  writes a file on which a second run with the same keywords and mode writes the same
  file again.
\<close>

theorem sort_twice_fixed_point:
  "has_header (readlines content) \<or>
   (case parse_channels (readlines content) of [] \<Rightarrow> True
    | ch # _ \<Rightarrow> \<not> str_in ''#EXTM3U'' (ch_inf ch)) \<longrightarrow>
   (\<exists>out. sort_m3u_urls (Some content) ks r None None = Written out \<and>
          sort_m3u_urls (Some out) ks r None None = Written out)"
proof
  assume hyp: "has_header (readlines content) \<or>
   (case parse_channels (readlines content) of [] \<Rightarrow> True
    | ch # _ \<Rightarrow> \<not> str_in ''#EXTM3U'' (ch_inf ch))"
  define lines where "lines = readlines content"
  define kws where "kws = csv_items ks"
  define chs where "chs = parse_channels (drop (start_index lines) lines)"
  define chs' where "chs' = map (\<lambda>ch. ch\<lparr>ch_urls := written_urls kws r None ch\<rparr>) chs"
  define hdr where "hdr = processed_content lines"
  define body where "body = concat (map (\<lambda>ch. ch_inf ch # ch_urls ch) chs')"
  define out where "out = write_lines (hdr @ body)"
  have body_eq: "concat (map (\<lambda>ch. ch_inf ch # written_urls kws r None ch) chs) = body"
    by (simp add: body_def chs'_def comp_def)
  have pass1: "sort_m3u_urls (Some content) ks r None None = Written out"
    using pass_global [of content ks r] body_eq
    by (simp add: out_def hdr_def lines_def chs_def kws_def)
  have "\<forall>l\<in>set (drop (start_index lines) lines). strip l = [] \<or> clean (strip l)"
    using readlines_clean [of _ content] by (auto simp: lines_def dest: in_set_dropD)
  then have chs_clean: "list_all record_clean chs"
    unfolding chs_def by (rule parse_channels_clean)
  then have chs'_clean: "list_all record_clean chs'"
    by (simp add: chs'_def list_all_iff record_clean_sorted)
  have hdr_cases: "hdr = [] \<or> (\<exists>h. hdr = [h] \<and> clean h \<and> str_in ''#EXTM3U'' h)"
    using header_clean [of lines content]
    by (auto simp: hdr_def processed_content_def lines_def)
  have first: "hdr = [] \<longrightarrow> (case chs' of [] \<Rightarrow> True | ch # _ \<Rightarrow> \<not> str_in ''#EXTM3U'' (ch_inf ch))"
  proof
    assume "hdr = []"
    then have nh: "\<not> has_header lines" by (auto simp: hdr_def processed_content_def)
    then have "parse_channels (readlines content) = chs"
      by (simp add: chs_def start_index_def lines_def)
    with hyp nh have "case chs of [] \<Rightarrow> True | ch # _ \<Rightarrow> \<not> str_in ''#EXTM3U'' (ch_inf ch)"
      by (simp add: lines_def)
    then show "case chs' of [] \<Rightarrow> True | ch # _ \<Rightarrow> \<not> str_in ''#EXTM3U'' (ch_inf ch)"
      by (cases chs) (simp_all add: chs'_def)
  qed
  have all_clean: "\<forall>x\<in>set (hdr @ body). LF \<notin> set x \<and> CR \<notin> set x"
    using hdr_cases chs'_clean
    by (auto simp: body_def list_all_iff record_clean_def info_line_def content_line_def clean_def)
  have rl: "readlines out = map (\<lambda>x. x @ [LF]) (hdr @ body)"
    unfolding out_def using all_clean by (rule readlines_write_lines)
  have sp: "processed_content (readlines out) = hdr \<and>
            parse_channels (drop (start_index (readlines out)) (readlines out)) = chs'"
    using hdr_cases chs'_clean first rl unfolding body_def by (rule second_pass)
  have again: "concat (map (\<lambda>ch. ch_inf ch # written_urls kws r None ch) chs') = body"
    by (simp add: body_def chs'_def comp_def written_urls_global sorted_by_fixed)
  have pass2: "sort_m3u_urls (Some out) ks r None None = Written out"
    using pass_global [of out ks r] sp again
    by (simp add: kws_def [symmetric]) (simp add: out_def)
  from pass1 pass2 show "\<exists>out. sort_m3u_urls (Some content) ks r None None = Written out \<and>
          sort_m3u_urls (Some out) ks r None None = Written out"
    by blast
qed

theorem sort_twice_fixed_point_witness:
  "has_header (readlines ''#EXTM3U\<newline>#EXTINF:-1,A\<newline>http://b/1\<newline>#EXTGRP:x\<newline>http://a/1\<newline>'') \<and>
   sort_m3u_urls (Some ''#EXTM3U\<newline>#EXTINF:-1,A\<newline>http://b/1\<newline>#EXTGRP:x\<newline>http://a/1\<newline>'')
     ''a'' False None None =
     Written ''#EXTM3U\<newline>#EXTINF:-1,A\<newline>http://a/1\<newline>http://b/1\<newline>#EXTGRP:x\<newline>'' \<and>
   sort_m3u_urls (Some ''#EXTM3U\<newline>#EXTINF:-1,A\<newline>http://a/1\<newline>http://b/1\<newline>#EXTGRP:x\<newline>'')
     ''a'' False None None =
     Written ''#EXTM3U\<newline>#EXTINF:-1,A\<newline>http://a/1\<newline>http://b/1\<newline>#EXTGRP:x\<newline>''"
  using sort_twice_fixed_point
    [of "''#EXTM3U\<newline>#EXTINF:-1,A\<newline>http://b/1\<newline>#EXTGRP:x\<newline>http://a/1\<newline>''" "''a''" False]
  by (simp add: sort_m3u_urls_def target_channels_of_def readlines_def start_index_def
      has_header_def processed_content_def write_lines_def parse_channels_def parse_step_def
      init_state_def flush_def strip_def lstrip_def rstrip_def is_space_def final_inf_def
      is_target_def written_urls_def should_sort_def get_sort_score_def csv_items_def)

text \<open>
  The claim as the specification states it fails for an input with no header line whose
  first info line contains \<open>#EXTM3U\<close>: the first run writes that info line first, the
  second run takes it for the header and loses the channel's line.
\<close>

theorem sort_twice_counterexample:
  "sort_m3u_urls (Some ''\<newline>#EXTINF:-1,#EXTM3U\<newline>http://a/x\<newline>'') ''a'' False None None =
     Written ''#EXTINF:-1,#EXTM3U\<newline>http://a/x\<newline>'' \<and>
   sort_m3u_urls (Some ''#EXTINF:-1,#EXTM3U\<newline>http://a/x\<newline>'') ''a'' False None None =
     Written ''#EXTINF:-1,#EXTM3U\<newline>''"
  by (simp add: sort_m3u_urls_def target_channels_of_def readlines_def start_index_def
      has_header_def processed_content_def write_lines_def parse_channels_def parse_step_def
      init_state_def flush_def strip_def lstrip_def rstrip_def is_space_def final_inf_def
      is_target_def written_urls_def should_sort_def get_sort_score_def csv_items_def)

section \<open>Templates without a backslash\<close>

lemma tokenize_plain: "BACKSLASH \<notin> set t \<Longrightarrow> tokenize t = Some (map Chr t)"
  by (induction t rule: tokenize.induct) auto

lemma parse_template_plain:
  "parse_template groups 0 (map Chr t) = Some (map (\<lambda>c. Literal [c]) t)"
  by (induction t) simp_all

lemma expand_template_plain:
  "expand_template (map (\<lambda>c. Literal [c]) t) whole gs = t"
  by (induction t) (simp_all add: expand_template_def)

lemma re_sub_plain:
  "BACKSLASH \<notin> set t \<Longrightarrow> re_sub lit capture t s = Some (sub_scan lit (\<lambda>v. t) 0 s)"
  by (simp add: re_sub_def tokenize_plain parse_template_plain expand_template_plain)

section \<open>The scan\<close>

lemma sub_scan_skip: "sub_scan lit repl n s = sub_scan lit repl 0 (drop n s)"
proof (induction s arbitrary: n)
  case Nil
  show ?case by simp
next
  case (Cons c cs)
  show ?case
  proof (cases n)
    case 0
    then show ?thesis by simp
  next
    case (Suc m)
    with Cons.IH [of m] show ?thesis by simp
  qed
qed

lemma dropWhile_until: "q \<notin> set v \<Longrightarrow> dropWhile (\<lambda>c. c \<noteq> q) (v @ q # post) = q # post"
  by (induction v) auto

lemma takeWhile_until: "q \<notin> set v \<Longrightarrow> takeWhile (\<lambda>c. c \<noteq> q) (v @ q # post) = v"
  by (induction v) auto

lemma match_at_hit:
  "DQUOTE \<notin> set v \<Longrightarrow> match_at lit (lit @ v @ DQUOTE # post) = Some (v, post)"
  by (simp add: match_at_def startswith_prefix dropWhile_until takeWhile_until)

lemma sub_scan_hit:
  assumes "DQUOTE \<notin> set v" and "lit \<noteq> []"
  shows "sub_scan lit repl 0 (lit @ v @ DQUOTE # post) = repl v @ sub_scan lit repl 0 post"
proof -
  from assms(2) obtain c cs where lit: "lit = c # cs" by (cases lit) simp_all
  have m: "match_at lit (c # cs @ v @ DQUOTE # post) = Some (v, post)"
    using match_at_hit [OF assms(1), of lit post] lit by simp
  have "sub_scan lit repl 0 (c # cs @ v @ DQUOTE # post) =
        repl v @ sub_scan lit repl (length lit + length v) (cs @ v @ DQUOTE # post)"
    by (simp add: m)
  also have "sub_scan lit repl (length lit + length v) (cs @ v @ DQUOTE # post) =
             sub_scan lit repl 0 post"
    by (subst sub_scan_skip) (simp add: lit)
  finally show ?thesis by (simp add: lit)
qed

lemma sub_scan_miss:
  "\<not> startswith (c # cs) lit \<Longrightarrow> sub_scan lit repl 0 (c # cs) = c # sub_scan lit repl 0 cs"
  by (simp add: match_at_def)

lemma sub_scan_none: "\<not> str_in lit s \<Longrightarrow> sub_scan lit repl 0 s = s"
  by (induction s) (simp_all add: match_at_def)

lemma before_last_split: "sep \<notin> set b \<Longrightarrow> before_last sep (a @ sep # b) = a"
  using dropWhile_until [of sep "rev b" "rev a"] by (simp add: before_last_def)

section \<open>Renaming\<close>

text \<open>
  With a name that holds no backslash the template is plain text, and \<open>rename_inf\<close> does
  what its comments say: every \<open>tvg-name="..."\<close> of the line becomes
  \<open>tvg-name="name"\<close>, then the text after the last comma of the result becomes the name,
  or \<open>,name\<close> is put at the end when there is no comma.
\<close>

lemma rename_inf_plain:
  assumes "BACKSLASH \<notin> set name"
  shows "rename_inf inf_line name =
         Some (let l = (if str_in ''tvg-name=\"'' inf_line
                        then sub_scan ''tvg-name=\"'' (\<lambda>v. ''tvg-name=\"'' @ name @ ''\"'') 0 inf_line
                        else inf_line)
               in if str_in '','' l then before_last (CHR '','') l @ '','' @ name
                  else l @ '','' @ name)"
  using assms by (simp add: rename_inf_def re_sub_plain Let_def)

lemma rename_inf_example:
  "rename_inf ''#EXTINF:-1 tvg-name=\"Old\",Old Channel'' ''NewName'' =
     Some ''#EXTINF:-1 tvg-name=\"NewName\",NewName''"
  by (simp add: rename_inf_plain match_at_def before_last_def)

text \<open>
  Claim C7. The claim holds for names without a backslash (\<open>rename_inf_plain\<close>). A
  backslash in the name is read by \<open>re.sub\<close> as the start of an escape: the name
  \<open>a\nb\<close> puts a line feed into the \<open>tvg-name\<close> value, not the name; the name \<open>A\B\<close>
  makes \<open>re.sub\<close> raise, and the run stops with the output file cut off before the
  channel.
\<close>

theorem rename_inf_backslash:
  "rename_inf ''#EXTINF:-1 tvg-name=\"Old\",Old Channel'' (''a'' @ [BACKSLASH] @ ''nb'') =
     Some (''#EXTINF:-1 tvg-name=\"a'' @ [LF] @ ''b\",a'' @ [BACKSLASH] @ ''nb'') \<and>
   rename_inf ''#EXTINF:-1 tvg-name=\"Old\",Old Channel'' (''A'' @ [BACKSLASH] @ ''B'') = None \<and>
   sort_m3u_urls (Some ''#EXTM3U\<newline>#EXTINF:-1 tvg-name=\"Old\",Old Channel\<newline>http://a/x\<newline>'')
     ''a'' False (Some ''Old'') (Some (''A'' @ [BACKSLASH] @ ''B'')) = WriteError ''#EXTM3U\<newline>''"
  by (simp add: rename_inf_def re_sub_def parse_escape_def escape_char_def is_ascii_letter_def
      is_digit_def expand_template_def match_at_def before_last_def
      sort_m3u_urls_def target_channels_of_def readlines_def start_index_def
      has_header_def processed_content_def write_lines_def parse_channels_def parse_step_def
      init_state_def flush_def strip_def lstrip_def rstrip_def is_space_def final_inf_def
      is_target_def csv_items_def)

section \<open>The header tool\<close>













end
